theory Spec2Isabelle
  imports Main
begin

section \<open>Strings and values\<close>

text \<open>
  A JavaScript string is a sequence of UTF-16 code units; the regular expressions of
  \<^verbatim>\<open>src/utils/textUtils.ts\<close> carry no \<^verbatim>\<open>u\<close> flag, so they work on code units. A code
  unit is modelled by its number, a string by the list of its code units. String
  literals of the source are written \<open>str ''...''\<close>; the backquote (0x60), the double
  quote (0x22) and the apostrophe (0x27) are written by their numbers.
\<close>

type_synonym jstring = "nat list"

abbreviation (input) ch :: "char \<Rightarrow> nat" where
  "ch \<equiv> of_char"

abbreviation (input) str :: "string \<Rightarrow> jstring" where
  "str \<equiv> map of_char"

text \<open>
  The functions are typed \<^verbatim>\<open>(text: string)\<close>, but both test \<^verbatim>\<open>typeof\<close> at run time,
  so the argument is a JavaScript value.
\<close>

datatype js_value =
    JString jstring
  | JUndefined
  | JNull
  | JBoolean bool
  | JNumber int
  | JObject

text \<open>
  \<^verbatim>\<open>\s\<close> in a regular expression and \<^verbatim>\<open>String.prototype.trim\<close> use the same set:
  WhiteSpace and LineTerminator of ECMAScript. The dot (without the \<^verbatim>\<open>s\<close> flag)
  matches every code unit but a LineTerminator.
\<close>

definition line_terminator :: "nat \<Rightarrow> bool" where
  "line_terminator c \<longleftrightarrow> c = 0x0A \<or> c = 0x0D \<or> c = 0x2028 \<or> c = 0x2029"

definition white_space :: "nat \<Rightarrow> bool" where
  "white_space c \<longleftrightarrow>
     c = 0x09 \<or> c = 0x0A \<or> c = 0x0B \<or> c = 0x0C \<or> c = 0x0D \<or> c = 0x20 \<or> c = 0xA0 \<or>
     c = 0x1680 \<or> (0x2000 \<le> c \<and> c \<le> 0x200A) \<or> c = 0x2028 \<or> c = 0x2029 \<or>
     c = 0x202F \<or> c = 0x205F \<or> c = 0x3000 \<or> c = 0xFEFF"

definition dot :: "nat \<Rightarrow> bool" where
  "dot c \<longleftrightarrow> \<not> line_terminator c"

definition alnum :: "nat \<Rightarrow> bool" where
  "alnum c \<longleftrightarrow> (0x41 \<le> c \<and> c \<le> 0x5A) \<or> (0x61 \<le> c \<and> c \<le> 0x7A) \<or> (0x30 \<le> c \<and> c \<le> 0x39)"

definition digit :: "nat \<Rightarrow> bool" where
  "digit c \<longleftrightarrow> 0x30 \<le> c \<and> c \<le> 0x39"

definition trim :: "jstring \<Rightarrow> jstring" where
  "trim s = rev (dropWhile white_space (rev (dropWhile white_space s)))"

definition starts_with :: "jstring \<Rightarrow> jstring \<Rightarrow> bool" where
  "starts_with s t \<longleftrightarrow> take (length t) s = t"

section \<open>Regular expressions as backtracking matchers\<close>

text \<open>
  A matcher is one attempt of a regular expression at one position: it is given the
  code unit before the position (\<open>None\<close> at index 0) and the input from the position
  on, and returns the captured groups with the input left after the match. The parts
  of a pattern are written in continuation-passing style, so that a quantifier can
  try its continuation again after giving up or taking one more code unit, as the
  backtracking matcher of ECMAScript does. The accumulator of a quantifier is the
  text of the capture group it stands in.
\<close>

type_synonym 'g matcher = "nat option \<Rightarrow> jstring \<Rightarrow> ('g \<times> jstring) option"

text \<open>A literal \<open>t\<close>, then the continuation.\<close>

definition lit :: "jstring \<Rightarrow> (jstring \<Rightarrow> 'a option) \<Rightarrow> jstring \<Rightarrow> 'a option" where
  "lit t k s = (if starts_with s t then k (drop (length t) s) else None)"

text \<open>One code unit of a class; the continuation is given the code unit.\<close>

definition one :: "(nat \<Rightarrow> bool) \<Rightarrow> (nat \<Rightarrow> jstring \<Rightarrow> 'a option) \<Rightarrow> jstring \<Rightarrow> 'a option" where
  "one p k s = (case s of [] \<Rightarrow> None | c # cs \<Rightarrow> if p c then k c cs else None)"

text \<open>\<^verbatim>\<open>X*?\<close>: the continuation first, one more \<^verbatim>\<open>X\<close> only when it fails.\<close>

fun lazy_star :: "(nat \<Rightarrow> bool) \<Rightarrow> (jstring \<Rightarrow> jstring \<Rightarrow> 'a option) \<Rightarrow> jstring \<Rightarrow> jstring \<Rightarrow> 'a option" where
  "lazy_star p k acc [] = k acc []"
| "lazy_star p k acc (c # cs) =
     (case k acc (c # cs) of
        Some r \<Rightarrow> Some r
      | None \<Rightarrow> if p c then lazy_star p k (acc @ [c]) cs else None)"

text \<open>\<^verbatim>\<open>X*\<close>: as many \<^verbatim>\<open>X\<close> as there are, giving them back one by one while the continuation fails.\<close>

fun greedy_star :: "(nat \<Rightarrow> bool) \<Rightarrow> (jstring \<Rightarrow> jstring \<Rightarrow> 'a option) \<Rightarrow> jstring \<Rightarrow> jstring \<Rightarrow> 'a option" where
  "greedy_star p k acc [] = k acc []"
| "greedy_star p k acc (c # cs) =
     (if p c
      then (case greedy_star p k (acc @ [c]) cs of
              Some r \<Rightarrow> Some r
            | None \<Rightarrow> k acc (c # cs))
      else k acc (c # cs))"

text \<open>\<^verbatim>\<open>A|B\<close>: the left alternative with all that follows it, the right one when that fails.\<close>

definition alt :: "(jstring \<Rightarrow> 'a option) \<Rightarrow> (jstring \<Rightarrow> 'a option) \<Rightarrow> jstring \<Rightarrow> 'a option" where
  "alt k1 k2 s = (case k1 s of Some r \<Rightarrow> Some r | None \<Rightarrow> k2 s)"

text \<open>\<^verbatim>\<open>(?:t)?\<close> for a literal \<open>t\<close>: with \<open>t\<close> first, without it when that fails.\<close>

definition optional :: "jstring \<Rightarrow> (jstring \<Rightarrow> 'a option) \<Rightarrow> jstring \<Rightarrow> 'a option" where
  "optional t k s = alt (lit t k) k s"

text \<open>\<^verbatim>\<open>(?!X)\<close> for a class: the next code unit is not an \<^verbatim>\<open>X\<close> (true at the end of the input).\<close>

definition not_ahead :: "(nat \<Rightarrow> bool) \<Rightarrow> (jstring \<Rightarrow> 'a option) \<Rightarrow> jstring \<Rightarrow> 'a option" where
  "not_ahead p k s = (case s of [] \<Rightarrow> k s | c # _ \<Rightarrow> if p c then None else k s)"

text \<open>\<^verbatim>\<open>$\<close> without the \<^verbatim>\<open>m\<close> flag: the end of the input.\<close>

definition end_of_input :: "(jstring \<Rightarrow> 'a option) \<Rightarrow> jstring \<Rightarrow> 'a option" where
  "end_of_input k s = (if s = [] then k s else None)"

text \<open>
  \<^verbatim>\<open>^\<close>: index 0 without the \<^verbatim>\<open>m\<close> flag; with it, index 0 or just after a LineTerminator.
\<close>

definition input_start :: "nat option \<Rightarrow> bool" where
  "input_start p \<longleftrightarrow> p = None"

definition line_start :: "nat option \<Rightarrow> bool" where
  "line_start p = (case p of None \<Rightarrow> True | Some c \<Rightarrow> line_terminator c)"

text \<open>The end of the pattern: the match, with its groups \<open>g\<close> and the input \<open>r\<close> left.\<close>

definition accept :: "'g \<Rightarrow> jstring \<Rightarrow> ('g \<times> jstring) option" where
  "accept g r = Some (g, r)"

text \<open>
  \<^verbatim>\<open>String.prototype.replace\<close> with a global regular expression and a replacement
  function \<open>f\<close> of the captured groups. The input is scanned from left to right; at
  each position not inside an earlier match the matcher is tried; a match of \<open>n > 0\<close>
  code units is replaced and the scan goes on after it (\<open>replace_from\<close> counts the
  code units still to skip), an empty match is replaced and the scan goes on one code
  unit further, and where there is no match the code unit is copied.
\<close>

fun replace_from :: "'g matcher \<Rightarrow> ('g \<Rightarrow> jstring) \<Rightarrow> nat \<Rightarrow> nat option \<Rightarrow> jstring \<Rightarrow> jstring" where
  "replace_from m f (Suc k) p (c # cs) = replace_from m f k (Some c) cs"
| "replace_from m f 0 p (c # cs) =
     (case m p (c # cs) of
        None \<Rightarrow> c # replace_from m f 0 (Some c) cs
      | Some (g, r) \<Rightarrow>
          if length r \<le> length cs
          then f g @ replace_from m f (length cs - length r) (Some c) cs
          else f g @ c # replace_from m f 0 (Some c) cs)"
| "replace_from m f k p [] =
     (if k = 0 then (case m p [] of None \<Rightarrow> [] | Some (g, r) \<Rightarrow> f g) else [])"

definition replace_all :: "'g matcher \<Rightarrow> ('g \<Rightarrow> jstring) \<Rightarrow> jstring \<Rightarrow> jstring" where
  "replace_all m f s = replace_from m f 0 None s"

subsection \<open>The patterns of the source\<close>

text \<open>A literal pattern, such as \<^verbatim>\<open>/&/g\<close> or \<^verbatim>\<open>/<p><\/p>/g\<close>.\<close>

definition literal_re :: "jstring \<Rightarrow> unit matcher" where
  "literal_re t p = lit t (accept ())"

text \<open>\<^verbatim>\<open>/```([\s\S]*?)```/g\<close>\<close>

definition fence :: jstring where
  "fence = [0x60, 0x60, 0x60]"

definition code_block_re :: "jstring matcher" where
  "code_block_re p = lit fence (lazy_star (\<lambda>c. True) (\<lambda>g. lit fence (accept g)) [])"

text \<open>\<^verbatim>\<open>/`([^`]+?)`/g\<close>\<close>

definition not_backquote :: "nat \<Rightarrow> bool" where
  "not_backquote c \<longleftrightarrow> c \<noteq> 0x60"

definition inline_code_re :: "jstring matcher" where
  "inline_code_re p =
     lit [0x60] (one not_backquote (\<lambda>c. lazy_star not_backquote (\<lambda>g. lit [0x60] (accept g)) [c]))"

text \<open>\<^verbatim>\<open>/^(?:<strong>)?(Speaker\s[A-Za-z0-9]+:)(?:<\/strong>)?/gm\<close>\<close>

definition speaker_label :: "jstring \<Rightarrow> (jstring \<times> jstring) option" where
  "speaker_label =
     lit (str ''Speaker'')
       (one white_space (\<lambda>w.
          one alnum (\<lambda>a.
            greedy_star alnum
              (\<lambda>g. lit (str '':'') (optional (str ''</strong>'') (accept (g @ str '':''))))
              (str ''Speaker'' @ [w, a]))))"

definition speaker_re :: "jstring matcher" where
  "speaker_re p s = (if line_start p then optional (str ''<strong>'') speaker_label s else None)"

text \<open>\<^verbatim>\<open>/\*\*(.*?)\*\*/g\<close> and \<^verbatim>\<open>/__(.*?)__/g\<close>, for the delimiter \<open>d\<close>.\<close>

definition strong_re :: "jstring \<Rightarrow> jstring matcher" where
  "strong_re d p = lit d (lazy_star dot (\<lambda>g. lit d (accept g)) [])"

text \<open>
  \<^verbatim>\<open>/(^|\s)\*(?!\s)(.*?)(?!\s)\*(\s|$)/g\<close> and the same with \<^verbatim>\<open>_\<close>, for the delimiter
  \<open>d\<close>. \<open>em_body\<close> is the pattern after its first group \<open>g1\<close>.
\<close>

definition em_body :: "nat \<Rightarrow> jstring \<Rightarrow> jstring \<Rightarrow> ((jstring \<times> jstring \<times> jstring) \<times> jstring) option" where
  "em_body d g1 =
     lit [d]
       (not_ahead white_space
          (lazy_star dot
             (\<lambda>g2. not_ahead white_space
                      (lit [d]
                         (alt (one white_space (\<lambda>w. accept (g1, g2, [w])))
                              (end_of_input (accept (g1, g2, []))))))
             []))"

definition em_re :: "nat \<Rightarrow> (jstring \<times> jstring \<times> jstring) matcher" where
  "em_re d p =
     alt (\<lambda>s. if input_start p then em_body d [] s else None)
         (one white_space (\<lambda>w. em_body d [w]))"

text \<open>
  \<^verbatim>\<open>/^[\s]*[-\*]\s+(.*)/gm\<close> and \<^verbatim>\<open>/^[\s]*[0-9]+\.\s+(.*)/gm\<close>; \<open>item_text\<close> is their common
  end \<^verbatim>\<open>\s+(.*)\<close>.
\<close>

definition item_text :: "jstring \<Rightarrow> (jstring \<times> jstring) option" where
  "item_text = one white_space (\<lambda>_. greedy_star white_space (\<lambda>_. greedy_star dot accept []) [])"

definition bullet :: "nat \<Rightarrow> bool" where
  "bullet c \<longleftrightarrow> c = ch CHR ''-'' \<or> c = ch CHR ''*''"

definition ul_item_re :: "jstring matcher" where
  "ul_item_re p s =
     (if line_start p
      then greedy_star white_space (\<lambda>_. one bullet (\<lambda>_. item_text)) [] s
      else None)"

definition ol_item_re :: "jstring matcher" where
  "ol_item_re p s =
     (if line_start p
      then greedy_star white_space
             (\<lambda>_. one digit (\<lambda>_. greedy_star digit (\<lambda>_. lit (str ''.'') item_text) []))
             [] s
      else None)"

text \<open>\<^verbatim>\<open>/<\/ul>\n?<ul>/g\<close> and \<^verbatim>\<open>/<\/ol>\n?<ol>/g\<close>, for the closing and the opening tag.\<close>

definition merge_re :: "jstring \<Rightarrow> jstring \<Rightarrow> unit matcher" where
  "merge_re closing opening p = lit closing (optional [0x0A] (lit opening (accept ())))"

text \<open>\<^verbatim>\<open>/<p>\s*<\/p>/g\<close>\<close>

definition empty_p_re :: "unit matcher" where
  "empty_p_re p = lit (str ''<p>'') (greedy_star white_space (\<lambda>_. lit (str ''</p>'') (accept ())) [])"

section \<open>escapeHtml\<close>

definition escapeHtml :: "js_value \<Rightarrow> jstring" where
  "escapeHtml v =
     (case v of
        JString text \<Rightarrow>
          replace_all (literal_re [0x27]) (\<lambda>_. str ''&#039;'')
            (replace_all (literal_re [0x22]) (\<lambda>_. str ''&quot;'')
              (replace_all (literal_re (str ''>'')) (\<lambda>_. str ''&gt;'')
                (replace_all (literal_re (str ''<'')) (\<lambda>_. str ''&lt;'')
                  (replace_all (literal_re (str ''&'')) (\<lambda>_. str ''&amp;'') text))))
      | _ \<Rightarrow> [])"

section \<open>markdownToHtml\<close>

text \<open>The rewriting passes, one definition for each statement of the source, in its order.\<close>

definition code_blocks :: "jstring \<Rightarrow> jstring" where
  "code_blocks html =
     replace_all code_block_re
       (\<lambda>codeContent. str ''<pre><code>'' @ trim codeContent @ str ''</code></pre>'') html"

definition inline_code :: "jstring \<Rightarrow> jstring" where
  "inline_code html =
     replace_all inline_code_re (\<lambda>codeContent. str ''<code>'' @ codeContent @ str ''</code>'') html"

definition speaker_labels :: "jstring \<Rightarrow> jstring" where
  "speaker_labels html =
     replace_all speaker_re (\<lambda>g1. str ''<strong>'' @ g1 @ str ''</strong>'') html"

definition bold :: "jstring \<Rightarrow> jstring" where
  "bold html =
     replace_all (strong_re (str ''__'')) (\<lambda>g1. str ''<strong>'' @ g1 @ str ''</strong>'')
       (replace_all (strong_re (str ''**'')) (\<lambda>g1. str ''<strong>'' @ g1 @ str ''</strong>'') html)"

definition em_replacement :: "jstring \<times> jstring \<times> jstring \<Rightarrow> jstring" where
  "em_replacement g = (case g of (g1, g2, g3) \<Rightarrow> g1 @ str ''<em>'' @ g2 @ str ''</em>'' @ g3)"

definition italic :: "jstring \<Rightarrow> jstring" where
  "italic html =
     replace_all (em_re (ch CHR ''_'')) em_replacement
       (replace_all (em_re (ch CHR ''*'')) em_replacement html)"

definition unordered_lists :: "jstring \<Rightarrow> jstring" where
  "unordered_lists html =
     replace_all (merge_re (str ''</ul>'') (str ''<ul>'')) (\<lambda>_. [])
       (replace_all ul_item_re (\<lambda>item. str ''<ul><li>'' @ trim item @ str ''</li></ul>'') html)"

definition ordered_lists :: "jstring \<Rightarrow> jstring" where
  "ordered_lists html =
     replace_all (merge_re (str ''</ol>'') (str ''<ol>'')) (\<lambda>_. [])
       (replace_all ol_item_re (\<lambda>item. str ''<ol><li>'' @ trim item @ str ''</li></ol>'') html)"

text \<open>\<^verbatim>\<open>html.split(/\n/)\<close>\<close>

fun split_on :: "nat \<Rightarrow> jstring \<Rightarrow> jstring list" where
  "split_on d [] = [[]]"
| "split_on d (c # cs) =
     (if c = d then [] # split_on d cs
      else (case split_on d cs of [] \<Rightarrow> [[c]] | l # ls \<Rightarrow> (c # l) # ls))"

definition container_line :: "jstring \<Rightarrow> bool" where
  "container_line line \<longleftrightarrow>
     starts_with line (str ''<li>'') \<or> starts_with line (str ''<ul>'') \<or>
     starts_with line (str ''<ol>'') \<or> starts_with line (str ''<pre>'') \<or>
     starts_with line (str ''<code>'')"

text \<open>
  The callback of \<^verbatim>\<open>lines.map\<close>. It reads and writes the variable \<^verbatim>\<open>inParagraph\<close> of
  the enclosing function, which is passed in and returned.
\<close>

definition paragraph_line :: "bool \<Rightarrow> jstring \<Rightarrow> jstring \<times> bool" where
  "paragraph_line inParagraph l =
     (let line = trim l in
      if line = [] then (if inParagraph then (str ''</p>'', False) else ([], inParagraph))
      else if container_line line
      then (if inParagraph then (str ''</p>'' @ line, False) else (line, inParagraph))
      else if \<not> inParagraph then (str ''<p>'' @ line, True)
      else (str ''<br />'' @ line, inParagraph))"

fun map_lines :: "bool \<Rightarrow> jstring list \<Rightarrow> jstring list \<times> bool" where
  "map_lines inParagraph [] = ([], inParagraph)"
| "map_lines inParagraph (l # ls) =
     (case paragraph_line inParagraph l of
        (out, inParagraph') \<Rightarrow>
          (case map_lines inParagraph' ls of
             (outs, final) \<Rightarrow> (out # outs, final)))"

text \<open>The map over the lines, \<^verbatim>\<open>join('')\<close>, and the closing of a paragraph left open.\<close>

definition assemble :: "jstring list \<Rightarrow> jstring" where
  "assemble lines =
     (case map_lines False lines of
        (mapped, inParagraph) \<Rightarrow>
          if inParagraph then concat mapped @ str ''</p>'' else concat mapped)"

definition paragraphs :: "jstring \<Rightarrow> jstring" where
  "paragraphs html = assemble (split_on 0x0A html)"

definition remove_empty_paragraphs :: "jstring \<Rightarrow> jstring" where
  "remove_empty_paragraphs html =
     replace_all (literal_re (str ''<p></p>'')) (\<lambda>_. [])
       (replace_all empty_p_re (\<lambda>_. []) html)"

definition markdownToHtml :: "js_value \<Rightarrow> jstring" where
  "markdownToHtml v =
     (case v of
        JString markdownText \<Rightarrow>
          if trim markdownText = [] then []
          else remove_empty_paragraphs
                 (paragraphs
                   (ordered_lists
                     (unordered_lists
                       (italic
                         (bold
                           (speaker_labels
                             (inline_code
                               (code_blocks
                                 (escapeHtml (JString markdownText))))))))))
      | _ \<Rightarrow> [])"

section \<open>Definitions for the properties\<close>

text \<open>What the escaper does to one code unit.\<close>

definition escape_char :: "nat \<Rightarrow> jstring" where
  "escape_char c =
     (if c = ch CHR ''&'' then str ''&amp;''
      else if c = ch CHR ''<'' then str ''&lt;''
      else if c = ch CHR ''>'' then str ''&gt;''
      else if c = 0x22 then str ''&quot;''
      else if c = 0x27 then str ''&#039;''
      else [c])"

text \<open>A matcher whose matches are never empty and leave a suffix of the input.\<close>

definition proper :: "'g matcher \<Rightarrow> bool" where
  "proper m \<longleftrightarrow> (\<forall>p s g r. m p s = Some (g, r) \<longrightarrow> (\<exists>x. x \<noteq> [] \<and> s = x @ r))"

text \<open>
  The code units that stand right after \<^verbatim>\<open><\<close> in the tags the passes insert
  (\<^verbatim>\<open>pre code strong em ul li ol p br\<close> and the closing tags), with the \<^verbatim>\<open>t\<close> of
  \<^verbatim>\<open><st\<close>. In a string that is \<open>tags_ok\<close>, every \<^verbatim>\<open><\<close> is followed by such a
  beginning of a tag.
\<close>

definition tag_letter :: "nat \<Rightarrow> bool" where
  "tag_letter c \<longleftrightarrow> c \<in> set (str ''/pceulobst'')"

definition tag_opening :: "jstring \<Rightarrow> bool" where
  "tag_opening s =
     (case s of
        [] \<Rightarrow> False
      | d # ds \<Rightarrow>
          d \<in> set (str ''/pceulob'') \<or>
          (d = ch CHR ''s'' \<and> (case ds of [] \<Rightarrow> False | e # _ \<Rightarrow> e = ch CHR ''t'')))"

fun tags_ok :: "jstring \<Rightarrow> bool" where
  "tags_ok [] = True"
| "tags_ok (c # cs) = ((if c = ch CHR ''<'' then tag_opening cs else True) \<and> tags_ok cs)"













section \<open>Facts about the matcher combinators\<close>

lemma starts_withD: "starts_with s t \<Longrightarrow> s = t @ drop (length t) s"
  unfolding starts_with_def by (metis append_take_drop_id)

lemma starts_with_append [simp]: "starts_with (t @ r) t"
  by (simp add: starts_with_def)

lemma lit_SomeD: "lit t k s = Some r \<Longrightarrow> \<exists>y. s = t @ y \<and> k y = Some r"
  unfolding lit_def by (auto split: if_splits dest: starts_withD)

lemma one_SomeD: "one p k s = Some r \<Longrightarrow> \<exists>c y. s = c # y \<and> p c \<and> k c y = Some r"
  unfolding one_def by (auto split: list.splits if_splits)

lemma alt_SomeD: "alt k1 k2 s = Some r \<Longrightarrow> k1 s = Some r \<or> k2 s = Some r"
  unfolding alt_def by (auto split: option.splits)

lemma optional_SomeD:
  "optional t k s = Some r \<Longrightarrow> (\<exists>y. s = t @ y \<and> k y = Some r) \<or> k s = Some r"
  unfolding optional_def by (auto dest!: alt_SomeD lit_SomeD)

lemma not_ahead_SomeD: "not_ahead p k s = Some r \<Longrightarrow> k s = Some r"
  unfolding not_ahead_def by (auto split: list.splits if_splits)

lemma end_of_input_SomeD: "end_of_input k s = Some r \<Longrightarrow> s = [] \<and> k [] = Some r"
  unfolding end_of_input_def by (auto split: if_splits)

lemma accept_SomeD: "accept g r = Some (g', r') \<Longrightarrow> g' = g \<and> r' = r"
  unfolding accept_def by auto

lemma lazy_star_sound:
  "lazy_star p k acc s = Some r \<Longrightarrow> \<exists>x y. s = x @ y \<and> (\<forall>c\<in>set x. p c) \<and> k (acc @ x) y = Some r"
proof (induction s arbitrary: acc)
  case Nil
  then show ?case by simp
next
  case (Cons c cs)
  show ?case
  proof (cases "k acc (c # cs)")
    case (Some r')
    with Cons.prems have "k (acc @ []) (c # cs) = Some r" by simp
    then show ?thesis by (metis append_Nil empty_iff list.set(1))
  next
    case None
    with Cons.prems have pc: "p c" and rec: "lazy_star p k (acc @ [c]) cs = Some r"
      by (simp_all split: if_splits)
    from Cons.IH [OF rec] obtain x y where "cs = x @ y" "\<forall>c\<in>set x. p c" "k ((acc @ [c]) @ x) y = Some r"
      by blast
    with pc have "c # cs = (c # x) @ y \<and> (\<forall>c\<in>set (c # x). p c) \<and> k (acc @ (c # x)) y = Some r"
      by simp
    then show ?thesis by blast
  qed
qed

lemma greedy_star_sound:
  "greedy_star p k acc s = Some r \<Longrightarrow> \<exists>x y. s = x @ y \<and> (\<forall>c\<in>set x. p c) \<and> k (acc @ x) y = Some r"
proof (induction s arbitrary: acc)
  case Nil
  then show ?case by simp
next
  case (Cons c cs)
  show ?case
  proof (cases "p c \<and> greedy_star p k (acc @ [c]) cs \<noteq> None")
    case True
    with Cons.prems have pc: "p c" and rec: "greedy_star p k (acc @ [c]) cs = Some r"
      by (auto split: option.splits)
    from Cons.IH [OF rec] obtain x y where "cs = x @ y" "\<forall>c\<in>set x. p c" "k ((acc @ [c]) @ x) y = Some r"
      by blast
    with pc have "c # cs = (c # x) @ y \<and> (\<forall>c\<in>set (c # x). p c) \<and> k (acc @ (c # x)) y = Some r"
      by simp
    then show ?thesis by blast
  next
    case False
    with Cons.prems have "k (acc @ []) (c # cs) = Some r"
      by (auto split: if_splits option.splits)
    then show ?thesis by (metis append_Nil empty_iff list.set(1))
  qed
qed

lemma greedy_star_accept:
  "greedy_star p accept acc s = Some (acc @ takeWhile p s, dropWhile p s)"
  by (induction s arbitrary: acc) (simp_all add: accept_def)

section \<open>Facts about replacement\<close>

lemma replace_from_skip:
  "replace_from m f (length x) p (x @ r) =
     replace_from m f 0 (if x = [] then p else Some (last x)) r"
  by (induction x arbitrary: p) simp_all

lemma replace_from_match:
  assumes "m p (x @ r) = Some (g, r)" and "x \<noteq> []"
  shows "replace_from m f 0 p (x @ r) = f g @ replace_from m f 0 (Some (last x)) r"
proof -
  from assms(2) obtain c cs where x: "x = c # cs" by (cases x) auto
  have "replace_from m f 0 p (x @ r) = f g @ replace_from m f (length cs) (Some c) (cs @ r)"
    using assms(1) by (simp add: x)
  also have "replace_from m f (length cs) (Some c) (cs @ r) = replace_from m f 0 (Some (last x)) r"
    by (simp add: replace_from_skip x)
  finally show ?thesis .
qed

lemma properD: "proper m \<Longrightarrow> m p s = Some (g, r) \<Longrightarrow> \<exists>x. x \<noteq> [] \<and> s = x @ r"
  unfolding proper_def by blast

lemma proper_Nil: "proper m \<Longrightarrow> m p [] = None"
  unfolding proper_def by (cases "m p []") auto

lemma replace_from_induct:
  assumes proper: "proper m"
    and nil: "P [] []"
    and copy: "\<And>p c cs out. m p (c # cs) = None \<Longrightarrow> P cs out \<Longrightarrow> P (c # cs) (c # out)"
    and match: "\<And>p x r g out. m p (x @ r) = Some (g, r) \<Longrightarrow> x \<noteq> [] \<Longrightarrow> P r out \<Longrightarrow> P (x @ r) (f g @ out)"
  shows "P s (replace_from m f 0 p s)"
proof (induction "length s" arbitrary: s p rule: less_induct)
  case less
  show ?case
  proof (cases s)
    case Nil
    then show ?thesis using nil proper_Nil [OF proper] by simp
  next
    case (Cons c cs)
    show ?thesis
    proof (cases "m p s")
      case None
      have "P cs (replace_from m f 0 (Some c) cs)"
        using less Cons by simp
      then show ?thesis using copy None Cons by simp
    next
      case (Some gr)
      obtain g r where gr: "gr = (g, r)" by (cases gr)
      from properD [OF proper] Some gr obtain x where x: "x \<noteq> []" "s = x @ r" by blast
      then have "length r < length s" by (cases x) auto
      then have "P r (replace_from m f 0 (Some (last x)) r)"
        using less by blast
      then have "P (x @ r) (f g @ replace_from m f 0 (Some (last x)) r)"
        using match Some gr x by blast
      then show ?thesis
        using replace_from_match [of m p x r g f] Some gr x by simp
    qed
  qed
qed

lemma set_replace_from_erase: "set (replace_from m (\<lambda>_. []) k p s) \<subseteq> set s"
proof (induction s arbitrary: k p)
  case Nil
  show ?case by (cases k) (auto split: option.splits)
next
  case (Cons c cs)
  have A: "\<And>k p. set (replace_from m (\<lambda>_. []) k p cs) \<subseteq> set cs" by (rule Cons)
  show ?case
  proof (cases k)
    case 0
    then show ?thesis using A [of 0 "Some c"] A [of "length cs - length (snd (the (m p (c # cs))))" "Some c"]
      by (auto split: option.splits)
  next
    case (Suc k')
    then show ?thesis using A [of k' "Some c"] by auto
  qed
qed

section \<open>The shape of a match\<close>

lemma literal_re_shape: "literal_re t p s = Some (g, r) \<Longrightarrow> s = t @ r"
  by (auto simp: literal_re_def dest!: lit_SomeD accept_SomeD)

lemma code_block_re_shape: "code_block_re p s = Some (g, r) \<Longrightarrow> s = fence @ g @ fence @ r"
  by (auto simp: code_block_re_def dest!: lit_SomeD lazy_star_sound accept_SomeD)

lemma inline_code_re_shape:
  "inline_code_re p s = Some (g, r) \<Longrightarrow> s = 0x60 # g @ 0x60 # r \<and> g \<noteq> []"
  by (auto simp: inline_code_re_def dest!: lit_SomeD one_SomeD lazy_star_sound accept_SomeD)

lemma strong_re_shape: "strong_re d p s = Some (g, r) \<Longrightarrow> s = d @ g @ d @ r"
  by (auto simp: strong_re_def dest!: lit_SomeD lazy_star_sound accept_SomeD)

lemma em_body_shape:
  "em_body d g1 s = Some (g, r) \<Longrightarrow>
     \<exists>g2 g3. g = (g1, g2, g3) \<and> s = d # g2 @ d # g3 @ r \<and> (\<forall>c\<in>set g3. white_space c)"
  by (auto simp: em_body_def
      dest!: lit_SomeD not_ahead_SomeD lazy_star_sound alt_SomeD one_SomeD end_of_input_SomeD accept_SomeD)

lemma em_re_shape:
  "em_re d p s = Some (g, r) \<Longrightarrow>
     \<exists>g1 g2 g3. g = (g1, g2, g3) \<and> s = g1 @ d # g2 @ d # g3 @ r \<and>
       (\<forall>c\<in>set g1. white_space c) \<and> (\<forall>c\<in>set g3. white_space c)"
  by (auto simp: em_re_def split: if_splits dest!: alt_SomeD one_SomeD em_body_shape)

lemma item_text_shape:
  assumes "item_text s = Some (g, r)"
  shows "\<exists>w. w \<noteq> [] \<and> (\<forall>c\<in>set w. white_space c) \<and> s = w @ g @ r \<and> (r = [] \<or> line_terminator (hd r))"
proof -
  from assms obtain w s' where s': "s = w # s'" "white_space w"
    and l: "greedy_star white_space (\<lambda>_. greedy_star dot accept []) [] s' = Some (g, r)"
    unfolding item_text_def by (blast dest: one_SomeD)
  from greedy_star_sound [OF l] obtain x y where xy: "s' = x @ y" "\<forall>c\<in>set x. white_space c"
    and k: "greedy_star dot accept [] y = Some (g, r)"
    by blast
  from s' xy have s: "s = w # x @ y" "white_space w" "\<forall>c\<in>set x. white_space c" by simp_all
  from k have g: "g = takeWhile dot y" and r: "r = dropWhile dot y"
    by (simp_all add: greedy_star_accept)
  have "r = [] \<or> line_terminator (hd r)"
    unfolding r using hd_dropWhile [of dot y] by (auto simp: dot_def)
  moreover have "s = (w # x) @ g @ r" using s g r by simp
  moreover have "\<forall>c\<in>set (w # x). white_space c" using s by simp
  ultimately show ?thesis by blast
qed

section \<open>Well-formed tags\<close>

lemma tag_opening_append: "tag_opening a \<Longrightarrow> tag_opening (a @ b)"
  by (auto simp: tag_opening_def split: list.splits)

lemma tag_opening_prefix:
  "tag_opening (a @ c # r) \<Longrightarrow> \<not> tag_letter c \<Longrightarrow> tag_opening a"
  by (cases a; cases "tl a") (auto simp: tag_opening_def tag_letter_def split: list.splits)

lemma tags_ok_append: "tags_ok a \<Longrightarrow> tags_ok b \<Longrightarrow> tags_ok (a @ b)"
  by (induction a) (auto simp: tag_opening_append)

lemma tags_ok_suffix: "tags_ok (a @ b) \<Longrightarrow> tags_ok b"
  by (induction a) auto

lemma tags_ok_prefix: "tags_ok (a @ c # r) \<Longrightarrow> \<not> tag_letter c \<Longrightarrow> tags_ok a"
  by (induction a) (auto dest: tag_opening_prefix)

lemma tags_ok_prefix': "tags_ok (a @ b) \<Longrightarrow> b = [] \<or> \<not> tag_letter (hd b) \<Longrightarrow> tags_ok a"
  by (cases b) (auto dest: tags_ok_prefix)

lemma tags_ok_middle:
  "tags_ok (a @ g @ b) \<Longrightarrow> b = [] \<or> \<not> tag_letter (hd b) \<Longrightarrow> tags_ok g"
  by (blast intro: tags_ok_prefix' dest: tags_ok_suffix)

lemma no_lt_tags_ok: "ch CHR ''<'' \<notin> set s \<Longrightarrow> tags_ok s"
  by (induction s) auto

lemma tags_ok_no_script: "tags_ok (a @ str ''<script>'' @ b) \<Longrightarrow> False"
  by (drule tags_ok_suffix) (simp add: tag_opening_def)

lemma white_space_not_tag_letter: "white_space c \<Longrightarrow> \<not> tag_letter c"
  by (auto simp: white_space_def tag_letter_def)

lemma line_terminator_not_tag_letter: "line_terminator c \<Longrightarrow> \<not> tag_letter c"
  by (auto simp: line_terminator_def tag_letter_def)

lemma trim_decomp:
  "\<exists>a b. s = a @ trim s @ b \<and> (\<forall>c\<in>set a. white_space c) \<and> (\<forall>c\<in>set b. white_space c)"
proof -
  let ?u = "dropWhile white_space s"
  have 1: "s = takeWhile white_space s @ ?u" by simp
  have "rev ?u = takeWhile white_space (rev ?u) @ dropWhile white_space (rev ?u)" by simp
  then have "rev (rev ?u) = rev (takeWhile white_space (rev ?u) @ dropWhile white_space (rev ?u))"
    by (rule arg_cong)
  then have 2: "?u = trim s @ rev (takeWhile white_space (rev ?u))"
    unfolding trim_def rev_append rev_rev_ident .
  have 3: "\<forall>c\<in>set (takeWhile white_space s). white_space c"
    by (auto dest: set_takeWhileD)
  have 4: "\<forall>c\<in>set (rev (takeWhile white_space (rev ?u))). white_space c"
    by (auto dest: set_takeWhileD)
  from 1 2 have "s = takeWhile white_space s @ trim s @ rev (takeWhile white_space (rev ?u))"
    by metis
  with 3 4 show ?thesis by blast
qed

lemma set_trim: "set (trim s) \<subseteq> set s"
  using trim_decomp [of s] by (metis Un_upper1 Un_upper2 set_append subset_trans)

lemma tags_ok_trim: "tags_ok s \<Longrightarrow> tags_ok (trim s)"
proof -
  assume ok: "tags_ok s"
  from trim_decomp obtain a b where s: "s = a @ trim s @ b"
    and b: "\<forall>c\<in>set b. white_space c" by blast
  have "b = [] \<or> \<not> tag_letter (hd b)"
    using b by (cases b) (auto dest: white_space_not_tag_letter)
  with ok s show ?thesis by (metis tags_ok_middle)
qed

lemma replace_all_tags_ok:
  assumes m: "\<And>p s g r. m p s = Some (g, r) \<Longrightarrow>
      \<exists>x. x \<noteq> [] \<and> s = x @ r \<and> \<not> tag_letter (hd x) \<and> (tags_ok s \<longrightarrow> tags_ok (f g))"
  shows "tags_ok s \<Longrightarrow> tags_ok (replace_all m f s)"
proof -
  have pr: "proper m" unfolding proper_def using m by blast
  have "\<forall>a. tags_ok (a @ s) \<longrightarrow> tags_ok (a @ replace_from m f 0 p s)" for p
  proof (rule replace_from_induct
      [OF pr, where P = "\<lambda>s out. \<forall>a. tags_ok (a @ s) \<longrightarrow> tags_ok (a @ out)"], goal_cases)
    case 1
    then show ?case by simp
  next
    case Copy: (2 p c cs out)
    show ?case
    proof (intro allI impI)
      fix a assume "tags_ok (a @ c # cs)"
      then have "tags_ok ((a @ [c]) @ cs)" by simp
      with Copy(2) have "tags_ok ((a @ [c]) @ out)" by blast
      then show "tags_ok (a @ c # out)" by simp
    qed
  next
    case Match: (3 p x r g out)
    from m [OF Match(1)] Match(2) have hd: "\<not> tag_letter (hd x)"
      and fg: "tags_ok (x @ r) \<longrightarrow> tags_ok (f g)"
      by auto
    show ?case
    proof (intro allI impI)
      fix a assume ok: "tags_ok (a @ x @ r)"
      from Match(2) obtain c cs where x: "x = c # cs" by (cases x) auto
      from ok hd x have a: "tags_ok a" using tags_ok_prefix [of a c "cs @ r"] by simp
      from ok have xr: "tags_ok (x @ r)" by (rule tags_ok_suffix)
      then have r: "tags_ok r" by (rule tags_ok_suffix)
      from xr fg have "tags_ok (f g)" by blast
      with a have "tags_ok (a @ f g)" by (rule tags_ok_append)
      then have "tags_ok ((a @ f g) @ r)" using r by (rule tags_ok_append)
      with Match(3) have "tags_ok ((a @ f g) @ out)" by blast
      then show "tags_ok (a @ f g @ out)" by simp
    qed
  qed
  then have "tags_ok ([] @ s) \<longrightarrow> tags_ok ([] @ replace_from m f 0 None s)" by blast
  then show "tags_ok s \<Longrightarrow> tags_ok (replace_all m f s)" by (simp add: replace_all_def)
qed

subsection \<open>More shapes\<close>

lemma ul_item_re_shape:
  assumes "ul_item_re p s = Some (g, r)"
  shows "\<exists>pre. pre \<noteq> [] \<and> s = pre @ g @ r \<and> \<not> tag_letter (hd pre) \<and> (r = [] \<or> line_terminator (hd r))"
proof -
  from assms have l: "greedy_star white_space (\<lambda>_. one bullet (\<lambda>_. item_text)) [] s = Some (g, r)"
    by (auto simp: ul_item_re_def split: if_splits)
  from greedy_star_sound [OF l] obtain x y where xy: "s = x @ y" "\<forall>c\<in>set x. white_space c"
    and k: "one bullet (\<lambda>_. item_text) y = Some (g, r)"
    by blast
  from one_SomeD [OF k] obtain b y' where y: "y = b # y'" "bullet b" and it: "item_text y' = Some (g, r)"
    by blast
  from item_text_shape [OF it] obtain w where w: "y' = w @ g @ r" "r = [] \<or> line_terminator (hd r)"
    by blast
  have "\<not> tag_letter (hd (x @ b # w))"
    using xy(2) y(2) by (cases x) (auto simp: tag_letter_def bullet_def dest: white_space_not_tag_letter)
  moreover have "s = (x @ b # w) @ g @ r" using xy y w by simp
  ultimately show ?thesis using w(2) by blast
qed

lemma ol_item_re_shape:
  assumes "ol_item_re p s = Some (g, r)"
  shows "\<exists>pre. pre \<noteq> [] \<and> s = pre @ g @ r \<and> \<not> tag_letter (hd pre) \<and> (r = [] \<or> line_terminator (hd r))"
proof -
  let ?k2 = "\<lambda>_::jstring. lit (str ''.'') item_text"
  from assms have l: "greedy_star white_space (\<lambda>_. one digit (\<lambda>_. greedy_star digit ?k2 [])) [] s = Some (g, r)"
    by (auto simp: ol_item_re_def split: if_splits)
  from greedy_star_sound [OF l] obtain x y where xy: "s = x @ y" "\<forall>c\<in>set x. white_space c"
    and k: "one digit (\<lambda>_. greedy_star digit ?k2 []) y = Some (g, r)"
    by blast
  from one_SomeD [OF k] obtain b y' where y: "y = b # y'" "digit b" and l2: "greedy_star digit ?k2 [] y' = Some (g, r)"
    by blast
  from greedy_star_sound [OF l2] obtain ds z where z: "y' = ds @ z" and k2: "lit (str ''.'') item_text z = Some (g, r)"
    by blast
  from lit_SomeD [OF k2] obtain z' where z': "z = str ''.'' @ z'" and it: "item_text z' = Some (g, r)"
    by blast
  from item_text_shape [OF it] obtain w where w: "z' = w @ g @ r" "r = [] \<or> line_terminator (hd r)"
    by blast
  have "\<not> tag_letter (hd (x @ b # ds @ str ''.'' @ w))"
    using xy(2) y(2) by (cases x) (auto simp: tag_letter_def digit_def dest: white_space_not_tag_letter)
  moreover have "s = (x @ b # ds @ str ''.'' @ w) @ g @ r" using xy y z z' w by simp
  ultimately show ?thesis using w(2) by blast
qed

lemma merge_re_shape:
  "merge_re c opn p s = Some (g, r) \<Longrightarrow> \<exists>x. s = c @ x @ opn @ r"
  by (auto simp: merge_re_def dest!: lit_SomeD optional_SomeD accept_SomeD)

lemma empty_p_re_shape:
  "empty_p_re p s = Some (g, r) \<Longrightarrow> \<exists>x. s = str ''<p>'' @ x @ str ''</p>'' @ r"
  by (auto simp: empty_p_re_def dest!: lit_SomeD greedy_star_sound accept_SomeD)

lemma speaker_label_shape:
  assumes "speaker_label s = Some (g, r)"
  shows "\<exists>post. s = g @ post @ r \<and> ch CHR ''<'' \<notin> set g \<and> g \<noteq> [] \<and> hd g = ch CHR ''S''"
proof -
  define sp where "sp = str ''Speaker''"
  define k where "k = (\<lambda>g. lit (str '':'') (optional (str ''</strong>'') (accept (g @ str '':''))))"
  have sp: "ch CHR ''<'' \<notin> set sp" "sp \<noteq> []" "hd sp = ch CHR ''S''"
    by (simp_all add: sp_def)
  from assms obtain y where s: "s = sp @ y"
    and 1: "one white_space (\<lambda>w. one alnum (\<lambda>a. greedy_star alnum k (sp @ [w, a]))) y = Some (g, r)"
    unfolding speaker_label_def sp_def k_def by (blast dest: lit_SomeD)
  from one_SomeD [OF 1] obtain w y1 where y: "y = w # y1" "white_space w"
    and 2: "one alnum (\<lambda>a. greedy_star alnum k (sp @ [w, a])) y1 = Some (g, r)"
    by blast
  from one_SomeD [OF 2] obtain a t where y1: "y1 = a # t" "alnum a"
    and l: "greedy_star alnum k (sp @ [w, a]) t = Some (g, r)"
    by blast
  from greedy_star_sound [OF l] obtain x z where xz: "t = x @ z" "\<forall>c\<in>set x. alnum c"
    and k: "k ((sp @ [w, a]) @ x) z = Some (g, r)"
    by blast
  from k have "lit (str '':'') (optional (str ''</strong>'') (accept (((sp @ [w, a]) @ x) @ str '':''))) z = Some (g, r)"
    by (simp only: k_def)
  from lit_SomeD [OF this] obtain z' where z: "z = str '':'' @ z'"
    and o: "optional (str ''</strong>'') (accept (((sp @ [w, a]) @ x) @ str '':'')) z' = Some (g, r)"
    by blast
  from optional_SomeD [OF o] obtain post where p: "z' = post @ r" and g: "g = ((sp @ [w, a]) @ x) @ str '':''"
    by (metis accept_SomeD append_Nil)
  have "s = g @ post @ r" using s y y1 xz z p g by simp
  moreover have "ch CHR ''<'' \<notin> set [w, a]"
    using y(2) y1(2) by (auto simp: white_space_def alnum_def)
  moreover have "ch CHR ''<'' \<notin> set x"
    using xz(2) by (auto simp: alnum_def)
  moreover have "g \<noteq> []" "hd g = ch CHR ''S''" unfolding g using sp by simp_all
  ultimately have "s = g @ post @ r \<and> ch CHR ''<'' \<notin> set g \<and> g \<noteq> [] \<and> hd g = ch CHR ''S''"
    using sp(1) unfolding g by simp
  then show ?thesis ..
qed

lemma speaker_re_shape:
  assumes "speaker_re p s = Some (g, r)"
  shows "\<exists>x. x \<noteq> [] \<and> s = x @ r \<and> \<not> tag_letter (hd x) \<and> ch CHR ''<'' \<notin> set g"
proof -
  define st where "st = str ''<strong>''"
  have st: "st \<noteq> []" "hd st = ch CHR ''<''" by (simp_all add: st_def)
  have nt: "\<not> tag_letter (ch CHR ''<'')" "\<not> tag_letter (ch CHR ''S'')" by (simp_all add: tag_letter_def)
  from assms have o: "optional st speaker_label s = Some (g, r)"
    by (auto simp: speaker_re_def st_def split: if_splits)
  from optional_SomeD [OF o] consider y where "s = st @ y" "speaker_label y = Some (g, r)"
    | "speaker_label s = Some (g, r)" by blast
  then show ?thesis
  proof cases
    case 1
    from speaker_label_shape [OF 1(2)] obtain post where y: "y = g @ post @ r" and g: "ch CHR ''<'' \<notin> set g" by blast
    define x where "x = st @ g @ post"
    have "s = x @ r" using 1(1) y by (simp add: x_def)
    moreover have "hd x = ch CHR ''<''" "x \<noteq> []" using st by (simp_all add: x_def)
    ultimately have "x \<noteq> [] \<and> s = x @ r \<and> \<not> tag_letter (hd x) \<and> ch CHR ''<'' \<notin> set g"
      using g nt by simp
    then show ?thesis ..
  next
    case 2
    from speaker_label_shape [OF 2] obtain post where y: "s = g @ post @ r" and g: "ch CHR ''<'' \<notin> set g" "g \<noteq> []" "hd g = ch CHR ''S''" by blast
    define x where "x = g @ post"
    have "s = x @ r" using y by (simp add: x_def)
    moreover have "hd x = ch CHR ''S''" "x \<noteq> []" using g by (simp_all add: x_def)
    ultimately have "x \<noteq> [] \<and> s = x @ r \<and> \<not> tag_letter (hd x) \<and> ch CHR ''<'' \<notin> set g"
      using g nt by simp
    then show ?thesis ..
  qed
qed

lemma lit_single: "lit [x] k (c # cs) = (if c = x then k cs else None)"
  by (simp add: lit_def starts_with_def)

lemma replace_from_char:
  "replace_from (literal_re [x]) (\<lambda>_. y) 0 p s = concat (map (\<lambda>c. if c = x then y else [c]) s)"
  by (induction s arbitrary: p) (simp_all add: literal_re_def lit_single accept_def lit_def starts_with_def)

lemma replace_all_char:
  "replace_all (literal_re [x]) (\<lambda>_. y) s = concat (map (\<lambda>c. if c = x then y else [c]) s)"
  by (simp add: replace_all_def replace_from_char)

lemma escapeHtml_string: "escapeHtml (JString s) = concat (map escape_char s)"
  by (induction s) (simp_all add: escapeHtml_def replace_all_char escape_char_def)

lemma escapeHtml_no_lt: "ch CHR ''<'' \<notin> set (escapeHtml (JString s))"
  by (auto simp: escapeHtml_string escape_char_def split: if_splits)

lemma escapeHtml_no_angle: "ch CHR ''<'' \<notin> set (escapeHtml v) \<and> ch CHR ''>'' \<notin> set (escapeHtml v)"
proof (cases v)
  case (JString s)
  then show ?thesis by (auto simp: escapeHtml_string escape_char_def split: if_splits)
qed (simp_all add: escapeHtml_def)

subsection \<open>Every pass keeps the tags well formed\<close>

lemma tags_ok_wrap: "tags_ok a \<Longrightarrow> tags_ok g \<Longrightarrow> tags_ok b \<Longrightarrow> tags_ok (a @ g @ b)"
  by (simp add: tags_ok_append)

lemma tags_stepI:
  assumes "s = x @ r" "x \<noteq> []" "\<not> tag_letter (hd x)" "tags_ok s \<Longrightarrow> tags_ok y"
  shows "\<exists>x. x \<noteq> [] \<and> s = x @ r \<and> \<not> tag_letter (hd x) \<and> (tags_ok s \<longrightarrow> tags_ok y)"
  using assms by blast

lemma backquote_not_tag_letter: "\<not> tag_letter 0x60"
  by (simp add: tag_letter_def)

lemma code_blocks_tags_ok:
  assumes "tags_ok html"
  shows "tags_ok (code_blocks html)"
  unfolding code_blocks_def
proof (rule replace_all_tags_ok [OF _ assms])
  fix p s g r
  assume "code_block_re p s = Some (g, r)"
  then have s: "s = fence @ g @ fence @ r" by (rule code_block_re_shape)
  show "\<exists>x. x \<noteq> [] \<and> s = x @ r \<and> \<not> tag_letter (hd x) \<and>
      (tags_ok s \<longrightarrow> tags_ok (str ''<pre><code>'' @ trim g @ str ''</code></pre>''))"
  proof (rule tags_stepI)
    show "s = (fence @ g @ fence) @ r" using s by simp
    show "fence @ g @ fence \<noteq> []" by (simp add: fence_def)
    show "\<not> tag_letter (hd (fence @ g @ fence))" by (simp add: fence_def tag_letter_def)
    assume "tags_ok s"
    with s have "tags_ok (fence @ g @ (fence @ r))" by simp
    then have "tags_ok g" by (rule tags_ok_middle) (simp add: fence_def tag_letter_def)
    then have "tags_ok (trim g)" by (rule tags_ok_trim)
    then show "tags_ok (str ''<pre><code>'' @ trim g @ str ''</code></pre>'')"
      by (intro tags_ok_wrap) (simp_all add: tag_opening_def)
  qed
qed

lemma inline_code_tags_ok:
  assumes "tags_ok html"
  shows "tags_ok (inline_code html)"
  unfolding inline_code_def
proof (rule replace_all_tags_ok [OF _ assms])
  fix p s g r
  assume "inline_code_re p s = Some (g, r)"
  then have s: "s = [0x60] @ g @ (0x60 # r)" using inline_code_re_shape by fastforce
  show "\<exists>x. x \<noteq> [] \<and> s = x @ r \<and> \<not> tag_letter (hd x) \<and>
      (tags_ok s \<longrightarrow> tags_ok (str ''<code>'' @ g @ str ''</code>''))"
  proof (rule tags_stepI)
    show "s = (0x60 # g @ [0x60]) @ r" using s by simp
    show "0x60 # g @ [0x60] \<noteq> []" by simp
    show "\<not> tag_letter (hd (0x60 # g @ [0x60]))" by (simp add: tag_letter_def)
    assume "tags_ok s"
    with s have "tags_ok ([0x60] @ g @ (0x60 # r))" by simp
    then have "tags_ok g" by (rule tags_ok_middle) (simp add: tag_letter_def)
    then show "tags_ok (str ''<code>'' @ g @ str ''</code>'')"
      by (intro tags_ok_wrap) (simp_all add: tag_opening_def)
  qed
qed

lemma speaker_labels_tags_ok:
  assumes "tags_ok html"
  shows "tags_ok (speaker_labels html)"
  unfolding speaker_labels_def
proof (rule replace_all_tags_ok [OF _ assms])
  fix p s g r
  assume "speaker_re p s = Some (g, r)"
  from speaker_re_shape [OF this] obtain x where x: "x \<noteq> []" "s = x @ r" "\<not> tag_letter (hd x)"
    and g: "ch CHR ''<'' \<notin> set g" by blast
  show "\<exists>x. x \<noteq> [] \<and> s = x @ r \<and> \<not> tag_letter (hd x) \<and>
      (tags_ok s \<longrightarrow> tags_ok (str ''<strong>'' @ g @ str ''</strong>''))"
  proof (rule tags_stepI)
    show "s = x @ r" "x \<noteq> []" "\<not> tag_letter (hd x)" by fact+
    from g have "tags_ok g" by (rule no_lt_tags_ok)
    then show "tags_ok (str ''<strong>'' @ g @ str ''</strong>'')"
      by (intro tags_ok_wrap) (simp_all add: tag_opening_def)
  qed
qed

lemma strong_tags_ok:
  assumes "tags_ok html" and d: "d \<noteq> []" "\<not> tag_letter (hd d)"
  shows "tags_ok (replace_all (strong_re d) (\<lambda>g1. str ''<strong>'' @ g1 @ str ''</strong>'') html)"
proof (rule replace_all_tags_ok [OF _ assms(1)])
  fix p s g r
  assume "strong_re d p s = Some (g, r)"
  then have s: "s = d @ g @ d @ r" by (rule strong_re_shape)
  show "\<exists>x. x \<noteq> [] \<and> s = x @ r \<and> \<not> tag_letter (hd x) \<and>
      (tags_ok s \<longrightarrow> tags_ok (str ''<strong>'' @ g @ str ''</strong>''))"
  proof (rule tags_stepI)
    show "s = (d @ g @ d) @ r" using s by simp
    show "d @ g @ d \<noteq> []" using d by simp
    show "\<not> tag_letter (hd (d @ g @ d))" using d by simp
    assume "tags_ok s"
    with s have "tags_ok (d @ g @ (d @ r))" by simp
    then have "tags_ok g" by (rule tags_ok_middle) (use d in simp)
    then show "tags_ok (str ''<strong>'' @ g @ str ''</strong>'')"
      by (intro tags_ok_wrap) (simp_all add: tag_opening_def)
  qed
qed

lemma bold_tags_ok: "tags_ok html \<Longrightarrow> tags_ok (bold html)"
  unfolding bold_def by (intro strong_tags_ok) (simp_all add: tag_letter_def)

lemma white_space_tags_ok: "\<forall>c\<in>set w. white_space c \<Longrightarrow> tags_ok w"
  by (rule no_lt_tags_ok) (auto simp: white_space_def)

lemma em_tags_ok:
  assumes "tags_ok html" and d: "\<not> tag_letter d"
  shows "tags_ok (replace_all (em_re d) em_replacement html)"
proof (rule replace_all_tags_ok [OF _ assms(1)])
  fix p s g r
  assume "em_re d p s = Some (g, r)"
  from em_re_shape [OF this] obtain g1 g2 g3 where g: "g = (g1, g2, g3)"
    and s: "s = g1 @ d # g2 @ d # g3 @ r"
    and w: "\<forall>c\<in>set g1. white_space c" "\<forall>c\<in>set g3. white_space c"
    by blast
  show "\<exists>x. x \<noteq> [] \<and> s = x @ r \<and> \<not> tag_letter (hd x) \<and>
      (tags_ok s \<longrightarrow> tags_ok (em_replacement g))"
  proof (rule tags_stepI)
    show "s = (g1 @ d # g2 @ d # g3) @ r" using s by simp
    show "g1 @ d # g2 @ d # g3 \<noteq> []" by simp
    show "\<not> tag_letter (hd (g1 @ d # g2 @ d # g3))"
      using d w(1) by (cases g1) (auto dest: white_space_not_tag_letter)
    assume "tags_ok s"
    with s have "tags_ok ((g1 @ [d]) @ g2 @ (d # g3 @ r))" by simp
    then have "tags_ok g2" by (rule tags_ok_middle) (use d in simp)
    then have mid: "tags_ok (str ''<em>'' @ g2 @ str ''</em>'')"
      by (intro tags_ok_wrap) (simp_all add: tag_opening_def)
    have "tags_ok g1" "tags_ok g3" using w by (simp_all add: white_space_tags_ok)
    from this(1) mid this(2) have "tags_ok (g1 @ (str ''<em>'' @ g2 @ str ''</em>'') @ g3)"
      by (rule tags_ok_wrap)
    then show "tags_ok (em_replacement g)" by (simp add: em_replacement_def g)
  qed
qed

lemma italic_tags_ok: "tags_ok html \<Longrightarrow> tags_ok (italic html)"
  unfolding italic_def by (intro em_tags_ok) (simp_all add: tag_letter_def)

lemma item_tags_ok:
  assumes "tags_ok html"
    and shape: "\<And>p s g r. m p s = Some (g, r) \<Longrightarrow>
      \<exists>pre. pre \<noteq> [] \<and> s = pre @ g @ r \<and> \<not> tag_letter (hd pre) \<and> (r = [] \<or> line_terminator (hd r))"
    and tags: "tags_ok a" "tags_ok b"
  shows "tags_ok (replace_all m (\<lambda>item. a @ trim item @ b) html)"
proof (rule replace_all_tags_ok [OF _ assms(1)])
  fix p s g r
  assume "m p s = Some (g, r)"
  from shape [OF this] obtain pre where pre: "pre \<noteq> []" "s = pre @ g @ r" "\<not> tag_letter (hd pre)"
    and r: "r = [] \<or> line_terminator (hd r)" by blast
  show "\<exists>x. x \<noteq> [] \<and> s = x @ r \<and> \<not> tag_letter (hd x) \<and>
      (tags_ok s \<longrightarrow> tags_ok (a @ trim g @ b))"
  proof (rule tags_stepI)
    show "s = (pre @ g) @ r" using pre by simp
    show "pre @ g \<noteq> []" "\<not> tag_letter (hd (pre @ g))" using pre by simp_all
    assume "tags_ok s"
    with pre have "tags_ok (pre @ g @ r)" by simp
    then have "tags_ok g" by (rule tags_ok_middle) (use r in \<open>auto dest: line_terminator_not_tag_letter\<close>)
    then have "tags_ok (trim g)" by (rule tags_ok_trim)
    with tags show "tags_ok (a @ trim g @ b)" by (simp add: tags_ok_append)
  qed
qed

lemma erase_tags_ok:
  assumes "tags_ok html"
    and shape: "\<And>p s g r. m p s = Some (g, r) \<Longrightarrow> \<exists>x. s = ch CHR ''<'' # x @ r"
  shows "tags_ok (replace_all m (\<lambda>_. []) html)"
proof (rule replace_all_tags_ok [OF _ assms(1)])
  fix p s g r
  assume "m p s = Some (g, r)"
  from shape [OF this] obtain x where x: "s = (ch CHR ''<'' # x) @ r" by auto
  show "\<exists>x. x \<noteq> [] \<and> s = x @ r \<and> \<not> tag_letter (hd x) \<and> (tags_ok s \<longrightarrow> tags_ok [])"
    by (rule tags_stepI [OF x]) (simp_all add: tag_letter_def)
qed

lemma unordered_lists_tags_ok: "tags_ok html \<Longrightarrow> tags_ok (unordered_lists html)"
  unfolding unordered_lists_def
  apply (rule erase_tags_ok)
   apply (rule item_tags_ok)
      apply assumption
     apply (erule ul_item_re_shape)
    apply (simp add: tag_opening_def)
   apply (simp add: tag_opening_def)
  apply (drule merge_re_shape)
  apply auto
  done

lemma ordered_lists_tags_ok: "tags_ok html \<Longrightarrow> tags_ok (ordered_lists html)"
  unfolding ordered_lists_def
  apply (rule erase_tags_ok)
   apply (rule item_tags_ok)
      apply assumption
     apply (erule ol_item_re_shape)
    apply (simp add: tag_opening_def)
   apply (simp add: tag_opening_def)
  apply (drule merge_re_shape)
  apply auto
  done

lemma remove_empty_paragraphs_tags_ok: "tags_ok html \<Longrightarrow> tags_ok (remove_empty_paragraphs html)"
  unfolding remove_empty_paragraphs_def
  apply (rule erase_tags_ok)
   apply (rule erase_tags_ok)
    apply assumption
   apply (drule empty_p_re_shape)
   apply auto[1]
  apply (drule literal_re_shape)
  apply auto
  done

subsection \<open>Lines\<close>

lemma split_on_head: "\<exists>ls. split_on d s = takeWhile (\<lambda>c. c \<noteq> d) s # ls \<and> set ls \<subseteq> set (split_on d (tl s))"
proof (induction s)
  case Nil
  then show ?case by simp
next
  case (Cons c cs)
  then show ?case by (auto split: list.splits)
qed

lemma split_on_line:
  "l \<in> set (split_on d s) \<Longrightarrow> \<exists>a b. s = a @ l @ b \<and> (b = [] \<or> hd b = d) \<and> d \<notin> set l"
proof (induction s arbitrary: l)
  case Nil
  then show ?case by simp
next
  case (Cons c cs)
  from split_on_head [of d "c # cs"] obtain ls
    where ls: "split_on d (c # cs) = takeWhile (\<lambda>c. c \<noteq> d) (c # cs) # ls" "set ls \<subseteq> set (split_on d cs)"
    by auto
  from Cons.prems ls consider "l = takeWhile (\<lambda>c. c \<noteq> d) (c # cs)" | "l \<in> set (split_on d cs)"
    by auto
  then show ?case
  proof cases
    case 1
    let ?b = "dropWhile (\<lambda>c. c \<noteq> d) (c # cs)"
    have "c # cs = [] @ l @ ?b" unfolding 1 by simp
    moreover have "?b = [] \<or> hd ?b = d" using hd_dropWhile [of "\<lambda>c. c \<noteq> d" "c # cs"] by blast
    moreover have "d \<notin> set l" unfolding 1 by (auto dest: set_takeWhileD)
    ultimately show ?thesis by blast
  next
    case 2
    from Cons.IH [OF 2] obtain a b where "cs = a @ l @ b" "b = [] \<or> hd b = d" "d \<notin> set l" by blast
    then have "c # cs = (c # a) @ l @ b \<and> (b = [] \<or> hd b = d) \<and> d \<notin> set l" by simp
    then show ?thesis by blast
  qed
qed

lemma map_lines_outputs:
  "out \<in> set (fst (map_lines b ls)) \<Longrightarrow> \<exists>b' l. l \<in> set ls \<and> out = fst (paragraph_line b' l)"
proof (induction ls arbitrary: b)
  case Nil
  then show ?case by simp
next
  case (Cons l ls)
  obtain o1 b1 where 1: "paragraph_line b l = (o1, b1)" by (cases "paragraph_line b l")
  obtain os b2 where 2: "map_lines b1 ls = (os, b2)" by (cases "map_lines b1 ls")
  from Cons.prems 1 2 consider "out = o1" | "out \<in> set (fst (map_lines b1 ls))" by auto
  then show ?case
  proof cases
    case 1
    then have "l \<in> set (l # ls) \<and> out = fst (paragraph_line b l)" using \<open>paragraph_line b l = (o1, b1)\<close> by simp
    then show ?thesis by blast
  next
    case 2
    from Cons.IH [OF 2] show ?thesis by auto
  qed
qed

lemma paragraph_line_cases:
  "fst (paragraph_line b l) \<in> {[], str ''</p>'', trim l, str ''</p>'' @ trim l, str ''<p>'' @ trim l, str ''<br />'' @ trim l}"
  by (simp add: paragraph_line_def Let_def)

lemma tags_ok_concat: "\<forall>x\<in>set xs. tags_ok x \<Longrightarrow> tags_ok (concat xs)"
  by (induction xs) (simp_all add: tags_ok_append)

lemma paragraph_line_tags_ok: "tags_ok l \<Longrightarrow> tags_ok (fst (paragraph_line b l))"
  using paragraph_line_cases [of b l] tags_ok_trim [of l]
  by (auto simp: tag_opening_def tags_ok_append)

lemma paragraphs_tags_ok:
  assumes "tags_ok html"
  shows "tags_ok (paragraphs html)"
proof -
  have lines: "\<forall>l\<in>set (split_on 0x0A html). tags_ok l"
  proof
    fix l assume "l \<in> set (split_on 0x0A html)"
    from split_on_line [OF this] obtain a b where "html = a @ l @ b" "b = [] \<or> hd b = 0x0A" by blast
    with assms show "tags_ok l" by (metis tags_ok_middle line_terminator_not_tag_letter line_terminator_def)
  qed
  have "\<forall>out\<in>set (fst (map_lines False (split_on 0x0A html))). tags_ok out"
    using lines by (auto dest!: map_lines_outputs intro: paragraph_line_tags_ok)
  then have "tags_ok (concat (fst (map_lines False (split_on 0x0A html))))"
    by (rule tags_ok_concat)
  then show ?thesis
    by (auto simp: paragraphs_def assemble_def tags_ok_append tag_opening_def split: prod.splits)
qed

lemma markdownToHtml_tags_ok_script:
  "\<not> (\<exists>a b. markdownToHtml v = a @ str ''<script>'' @ b)"
proof (cases v)
  case (JString s)
  have "tags_ok (escapeHtml (JString s))" by (rule no_lt_tags_ok) (rule escapeHtml_no_lt)
  then have "tags_ok (remove_empty_paragraphs (paragraphs (ordered_lists (unordered_lists
      (italic (bold (speaker_labels (inline_code (code_blocks (escapeHtml (JString s)))))))))))"
    by (intro remove_empty_paragraphs_tags_ok paragraphs_tags_ok ordered_lists_tags_ok
        unordered_lists_tags_ok italic_tags_ok bold_tags_ok speaker_labels_tags_ok
        inline_code_tags_ok code_blocks_tags_ok)
  then have "tags_ok (markdownToHtml v)" by (simp add: markdownToHtml_def JString)
  then show ?thesis by (metis tags_ok_no_script)
qed (simp_all add: markdownToHtml_def)

lemma no_newline_line: "0x0A \<notin> set l \<Longrightarrow> 0x0A \<notin> set (fst (paragraph_line b l))"
  using paragraph_line_cases [of b l] set_trim [of l] by auto

lemma markdownToHtml_no_newline: "0x0A \<notin> set (markdownToHtml v)"
proof (cases v)
  case (JString s)
  define html where "html = ordered_lists (unordered_lists
      (italic (bold (speaker_labels (inline_code (code_blocks (escapeHtml (JString s))))))))"
  obtain mapped inParagraph where m: "map_lines False (split_on 0x0A html) = (mapped, inParagraph)"
    by (cases "map_lines False (split_on 0x0A html)")
  have "\<forall>out\<in>set (fst (map_lines False (split_on 0x0A html))). 0x0A \<notin> set out"
    by (auto dest!: map_lines_outputs split_on_line simp: no_newline_line)
  then have "0x0A \<notin> set (concat mapped)" using m by auto
  then have "0x0A \<notin> set (paragraphs html)"
    by (simp add: paragraphs_def assemble_def m)
  then have "0x0A \<notin> set (remove_empty_paragraphs (paragraphs html))"
    unfolding remove_empty_paragraphs_def replace_all_def
    using set_replace_from_erase by blast
  then show ?thesis by (simp add: markdownToHtml_def JString html_def)
qed (simp_all add: markdownToHtml_def)

section \<open>Emphasis\<close>

subsection \<open>Evaluating the combinators\<close>

lemma lit_Nil [simp]: "lit [] k s = k s"
  by (simp add: lit_def starts_with_def)

lemma lit_Cons_Cons [simp]: "lit (c # t) k (c' # s) = (if c' = c then lit t k s else None)"
  by (auto simp: lit_def starts_with_def)

lemma lit_Cons_Nil [simp]: "lit (c # t) k [] = None"
  by (simp add: lit_def starts_with_def)

lemma one_Cons [simp]: "one p k (c # s) = (if p c then k c s else None)"
  by (simp add: one_def)

lemma one_Nil [simp]: "one p k [] = None"
  by (simp add: one_def)

lemma not_ahead_Cons [simp]: "not_ahead p k (c # s) = (if p c then None else k (c # s))"
  by (simp add: not_ahead_def)

lemma not_ahead_Nil [simp]: "not_ahead p k [] = k []"
  by (simp add: not_ahead_def)



subsection \<open>One pair\<close>









subsection \<open>Texts without opening delimiter\<close>








subsection \<open>The two passes over a spaced buffer\<close>





















section \<open>Evaluation\<close>

lemmas matcher_defs =
  lit_def one_def alt_def optional_def not_ahead_def end_of_input_def input_start_def line_start_def
  accept_def starts_with_def literal_re_def fence_def code_block_re_def not_backquote_def
  inline_code_re_def speaker_label_def speaker_re_def strong_re_def em_body_def em_re_def
  item_text_def bullet_def ul_item_re_def ol_item_re_def merge_re_def empty_p_re_def
  line_terminator_def white_space_def dot_def alnum_def digit_def trim_def

lemmas pass_defs =
  replace_all_def escapeHtml_def code_blocks_def inline_code_def speaker_labels_def bold_def
  em_replacement_def italic_def unordered_lists_def ordered_lists_def container_line_def
  paragraph_line_def assemble_def paragraphs_def remove_empty_paragraphs_def markdownToHtml_def

lemma trim_all_white_space: "\<forall>c\<in>set s. white_space c \<Longrightarrow> trim s = []"
proof -
  assume "\<forall>c\<in>set s. white_space c"
  then have "dropWhile white_space s = []" by simp
  then show ?thesis by (simp only: trim_def rev.simps dropWhile.simps)
qed

section \<open>The claims\<close>

text \<open>
  C1. For every input, the output of \<open>markdownToHtml\<close> does not contain
  \<^verbatim>\<open><script>\<close>, and the escaped input holds no \<^verbatim>\<open><\<close> and no \<^verbatim>\<open>>\<close>. Every pass
  keeps \<open>tags_ok\<close>: each \<^verbatim>\<open><\<close> of the buffer is followed by the beginning of a tag
  that the passes insert, which \<^verbatim>\<open><sc\<close> is not.
\<close>

theorem C1_no_script_in_output:
  "\<not> (\<exists>a b. markdownToHtml v = a @ str ''<script>'' @ b) \<and>
   ch CHR ''<'' \<notin> set (escapeHtml v) \<and> ch CHR ''>'' \<notin> set (escapeHtml v)"
  using markdownToHtml_tags_ok_script [of v] escapeHtml_no_angle [of v] by simp

theorem C1_no_script_in_output_witness:
  "\<not> (\<exists>a b. markdownToHtml (JString (str ''<script>alert(1)</script>'')) = a @ str ''<script>'' @ b)"
  using C1_no_script_in_output [of "JString (str ''<script>alert(1)</script>'')"] by simp

text \<open>
  C2. The content of a code block is not opaque to the later passes: the fenced input
  \<^verbatim>\<open>**not bold**\<close> (between two fences of three backquotes) is rendered with a
  strong-emphasis container inside the code block, because the pass for
  \<^verbatim>\<open>**\<close> runs over the whole buffer after the code block was wrapped.
\<close>

theorem C2_code_block_content_is_rewritten:
  "markdownToHtml (JString (fence @ str ''**not bold**'' @ fence)) =
     str ''<pre><code><strong>not bold</strong></code></pre>''"
  by (simp add: matcher_defs pass_defs)

text \<open>
  C3. An interior line of a fenced code block of several lines does not start with one
  of the five tags that \<open>container_line\<close> tests, so it is wrapped in a paragraph: for
  the block with the lines \<^verbatim>\<open>a\<close> and \<^verbatim>\<open>b\<close>, the line \<^verbatim>\<open>b</code></pre>\<close> opens a
  paragraph inside the code block.
\<close>

theorem C3_code_block_interior_line_is_wrapped:
  "markdownToHtml (JString (fence @ [0x0A] @ str ''a'' @ [0x0A] @ str ''b'' @ [0x0A] @ fence)) =
     str ''<pre><code>a<p>b</code></pre></p>''"
  by (simp add: matcher_defs pass_defs)

text \<open>
  C4. \<open>markdownToHtml\<close> has no failing branch (the source has no \<^verbatim>\<open>throw\<close>, and
  \<^verbatim>\<open>trim\<close> is only reached for a string), and it returns the empty string for every
  value that is not a string and for every string of white space only, the empty
  string among them.
\<close>

theorem C4_empty_for_non_string_and_blank:
  assumes "\<forall>s. v = JString s \<longrightarrow> (\<forall>c\<in>set s. white_space c)"
  shows "markdownToHtml v = []"
  using assms by (cases v) (simp_all add: markdownToHtml_def trim_all_white_space)

theorem C4_empty_for_non_string_and_blank_witness:
  "markdownToHtml JUndefined = [] \<and> markdownToHtml JNull = [] \<and> markdownToHtml (JNumber 7) = [] \<and>
   markdownToHtml (JString []) = [] \<and> markdownToHtml (JString [0x20, 0x0A, 0x09, 0x20]) = []"
  using C4_empty_for_non_string_and_blank [of JUndefined]
    C4_empty_for_non_string_and_blank [of JNull]
    C4_empty_for_non_string_and_blank [of "JNumber 7"]
    C4_empty_for_non_string_and_blank [of "JString []"]
    C4_empty_for_non_string_and_blank [of "JString [0x20, 0x0A, 0x09, 0x20]"]
  by (simp add: white_space_def)

text \<open>
  C5. A line that holds only the marker and white space is no item of its own. Each of
  the two lines \<^verbatim>\<open>- \<close> and \<^verbatim>\<open>- b\<close> matches the pattern of an unordered item when it
  stands alone, the first with an empty item. In the input of the two lines, \<^verbatim>\<open>\s+\<close>
  after the first marker runs over the newline, the rest of the second line is taken as
  the text of the first item, and the output is one container with the one item
  \<^verbatim>\<open>- b\<close> instead of one item for each line.
\<close>

theorem C5_marker_only_line_takes_next_line:
  "ul_item_re None (str ''- '') = Some ([], []) \<and>
   ul_item_re (Some 0x0A) (str ''- b'') = Some (str ''b'', []) \<and>
   markdownToHtml (JString (str ''- '' @ [0x0A] @ str ''- b'')) = str ''<ul><li>- b</li></ul>''"
  by (simp add: matcher_defs pass_defs)

text \<open>
  C6. A text line that begins with an inline code span is not put into a paragraph.
  After the pass for inline code the line begins with \<^verbatim>\<open><code>\<close>, and
  \<open>container_line\<close>, which is meant for lists and code blocks, takes it for a
  container. The line made of the code span \<^verbatim>\<open>a\<close> and the text \<^verbatim>\<open> b\<close> is rendered
  without a paragraph; and in the run of the three text lines \<^verbatim>\<open>intro\<close>, the code
  span \<^verbatim>\<open>x\<close> followed by \<^verbatim>\<open> is a variable\<close>, and \<^verbatim>\<open>more text\<close>, the second line
  closes the paragraph of the first, stands outside any paragraph, and the third line
  opens a new paragraph.
\<close>

theorem C6_line_with_leading_code_span_is_bare:
  "container_line (str ''<code>a</code> b'') \<and>
   markdownToHtml (JString ([0x60] @ str ''a'' @ [0x60] @ str '' b'')) = str ''<code>a</code> b'' \<and>
   markdownToHtml
     (JString (str ''intro'' @ [0x0A, 0x60] @ str ''x'' @ [0x60] @ str '' is a variable'' @ [0x0A] @
               str ''more text'')) =
     str ''<p>intro</p><code>x</code> is a variable<p>more text</p>''"
  by (simp add: matcher_defs pass_defs)




text \<open>
  C8. The two spellings of a speaker label give the same output, with the label in one
  strong-emphasis container: the label without asterisks is wrapped by the speaker
  pass, the label between \<^verbatim>\<open>**\<close> is left by the speaker pass and wrapped by the pass
  for \<^verbatim>\<open>**\<close>. The speaker pass applied to its own output changes nothing: a label
  already in a strong-emphasis container is not wrapped again.
\<close>

theorem C8_speaker_label_wrapped_once:
  "markdownToHtml (JString (str ''**Speaker 1:** hello'')) =
     markdownToHtml (JString (str ''Speaker 1: hello'')) \<and>
   markdownToHtml (JString (str ''Speaker 1: hello'')) =
     str ''<p><strong>Speaker 1:</strong> hello</p>'' \<and>
   speaker_labels (speaker_labels (str ''Speaker 1: hello'')) =
     speaker_labels (str ''Speaker 1: hello'')"
  by (simp add: matcher_defs pass_defs)

text \<open>
  C9, as stated: each of the five characters is replaced by its named character
  reference. The apostrophe is not: the source writes the numeric reference
  \<^verbatim>\<open>&#039;\<close>, not \<^verbatim>\<open>&apos;\<close>.
\<close>

theorem C9_apostrophe_reference_is_numeric:
  "escapeHtml (JString [0x27]) = str ''&#039;'' \<and> escapeHtml (JString [0x27]) \<noteq> str ''&apos;''"
  by (simp add: escapeHtml_string escape_char_def)

text \<open>
  C9, amended. \<open>escapeHtml\<close> replaces each code unit by \<open>escape_char\<close> of it:
  \<^verbatim>\<open>&amp; &lt; &gt; &quot;\<close> for the ampersand, the angle brackets and the double
  quote, the numeric reference \<^verbatim>\<open>&#039;\<close> for the apostrophe, and the code unit itself
  otherwise. The five passes of the source give this because the ampersand is replaced
  first: the later passes find no ampersand of their own making to escape again. The
  result is the empty string for the empty string and for a value that is not a string.
\<close>

theorem C9_escapeHtml_by_code_unit:
  "escapeHtml (JString s) = concat (map escape_char s) \<and>
   escapeHtml (JString []) = [] \<and>
   escapeHtml JUndefined = [] \<and> escapeHtml JNull = [] \<and> escapeHtml (JBoolean b) = [] \<and>
   escapeHtml (JNumber n) = [] \<and> escapeHtml JObject = []"
  by (simp add: escapeHtml_string) (simp add: escapeHtml_def)

theorem C9_escapeHtml_by_code_unit_witness:
  "escapeHtml (JString (str ''a & b <i> &amp;'' @ [0x22, 0x27])) =
     str ''a &amp; b &lt;i&gt; &amp;amp;&quot;&#039;''"
  using C9_escapeHtml_by_code_unit [of "str ''a & b <i> &amp;'' @ [0x22, 0x27]"]
  by (simp add: escape_char_def)

text \<open>
  C10. The output of \<open>markdownToHtml\<close> holds no newline: the lines are split at every
  newline, each is trimmed and given a prefix without newline, they are joined with
  the empty string, and the last two passes only erase.
\<close>

theorem C10_no_newline_in_output:
  "0x0A \<notin> set (markdownToHtml v)"
  by (rule markdownToHtml_no_newline)

theorem C10_no_newline_in_output_witness:
  "0x0A \<notin> set (markdownToHtml (JString (fence @ [0x0A] @ str ''a'' @ [0x0A] @ str ''b'' @ [0x0A] @ fence)))"
  by (rule C10_no_newline_in_output)

end
